theory Spec2Isabelle
  imports Main "HOL-Library.Multiset"
begin

section \<open>The object pool of \<^verbatim>\<open>be/src/common/object_pool.h\<close>\<close>

text \<open>
  \<^verbatim>\<open>ObjectPool\<close> keeps a \<^verbatim>\<open>std::list<Element>\<close>; an \<^verbatim>\<open>Element\<close> is a \<^verbatim>\<open>void*\<close>
  together with a function pointer that deletes it. The class is neither copyable nor
  assignable, so a pool is the object at its address: the model keeps the pools in a store
  indexed by address and every method takes \<^verbatim>\<open>this\<close> as such an address.

  What a deletion function does lies outside the class (it runs the destructor of \<open>T\<close> and
  frees the memory). The model records it as an event appended to a trace, in the order the
  calls are made. A deletion function is taken not to call back into a pool. The methods are
  given twice: first as they run when every deletion function returns, then with the exit
  of each call made explicit, for a deletion function that leaves by an exception.
\<close>

subsection \<open>Data\<close>

type_synonym addr = nat

type_synonym pool_ref = nat

text \<open>
  The two delete expressions of the source, at the static type \<open>T\<close> of the template
  instance: \<^verbatim>\<open>delete reinterpret_cast<T*>(obj)\<close> and \<^verbatim>\<open>delete[] reinterpret_cast<T*>(obj)\<close>.
\<close>

datatype 'ty event = Delete 'ty addr | Delete_array 'ty addr

text \<open>
  \<^verbatim>\<open>using DeleteFn = void (*)(void*)\<close>. The only values the class ever stores are the two
  captureless lambdas of \<^verbatim>\<open>add<T>\<close> and \<^verbatim>\<open>add_array<T>\<close>, one pair for each \<open>T\<close>.
\<close>

datatype 'ty DeleteFn = Add_lambda 'ty | Add_array_lambda 'ty

text \<open>Calling a \<^verbatim>\<open>DeleteFn\<close> on a pointer runs the body of the lambda.\<close>

fun call :: "'ty DeleteFn \<Rightarrow> addr \<Rightarrow> 'ty event" where
  "call (Add_lambda T) obj = Delete T obj"
| "call (Add_array_lambda T) obj = Delete_array T obj"

record 'ty Element =
  obj :: addr
  delete_fn :: "'ty DeleteFn"

text \<open>
  The member \<^verbatim>\<open>_objects\<close>. The member \<^verbatim>\<open>_lock\<close> is left out: in a run of one thread every
  \<^verbatim>\<open>std::lock_guard\<close> takes a free lock and releases it at the end of the method, so the
  lock never changes what a method computes.
\<close>

record 'ty ObjectPool =
  objects :: "'ty Element list"

record 'ty memory =
  pools :: "pool_ref \<Rightarrow> 'ty ObjectPool"
  trace :: "'ty event list"

text \<open>\<^verbatim>\<open>ObjectPool() = default\<close>: the list starts empty.\<close>

definition ObjectPool_default :: "'ty ObjectPool" where
  "ObjectPool_default = \<lparr>objects = []\<rparr>"

definition start :: "'ty memory" where
  "start = \<lparr>pools = (\<lambda>_. ObjectPool_default), trace = []\<rparr>"

subsection \<open>The methods\<close>

text \<open>Writing the list of the pool at an address.\<close>

definition set_objects :: "pool_ref \<Rightarrow> 'ty Element list \<Rightarrow> 'ty memory \<Rightarrow> 'ty memory" where
  "set_objects this xs m = m\<lparr>pools := (pools m)(this := (pools m this)\<lparr>objects := xs\<rparr>)\<rparr>"

definition get_objects :: "pool_ref \<Rightarrow> 'ty memory \<Rightarrow> 'ty Element list" where
  "get_objects this m = objects (pools m this)"

text \<open>\<^verbatim>\<open>elem.delete_fn(elem.obj)\<close>, when the call returns.\<close>

definition invoke :: "'ty Element \<Rightarrow> 'ty memory \<Rightarrow> 'ty memory" where
  "invoke elem m = m\<lparr>trace := trace m @ [call (delete_fn elem) (obj elem)]\<rparr>"

text \<open>
  \<^verbatim>\<open>_objects.emplace_back(Element {t, [](void* obj) { delete reinterpret_cast<T*>(obj); }});
  return t;\<close>
\<close>

definition add :: "pool_ref \<Rightarrow> 'ty \<Rightarrow> addr \<Rightarrow> 'ty memory \<Rightarrow> addr \<times> 'ty memory" where
  "add this T t m =
     (t, set_objects this (get_objects this m @ [\<lparr>obj = t, delete_fn = Add_lambda T\<rparr>]) m)"

definition add_array :: "pool_ref \<Rightarrow> 'ty \<Rightarrow> addr \<Rightarrow> 'ty memory \<Rightarrow> addr \<times> 'ty memory" where
  "add_array this T t m =
     (t, set_objects this (get_objects this m @ [\<lparr>obj = t, delete_fn = Add_array_lambda T\<rparr>]) m)"

text \<open>\<^verbatim>\<open>for (Element& elem : _objects) elem.delete_fn(elem.obj);\<close>\<close>

fun for_each_invoke :: "'ty Element list \<Rightarrow> 'ty memory \<Rightarrow> 'ty memory" where
  "for_each_invoke [] m = m"
| "for_each_invoke (elem # rest) m = for_each_invoke rest (invoke elem m)"

definition clear :: "pool_ref \<Rightarrow> 'ty memory \<Rightarrow> 'ty memory" where
  "clear this m = set_objects this [] (for_each_invoke (get_objects this m) m)"

text \<open>
  \<^verbatim>\<open>if (!_objects.empty()) { Element& elem = _objects.back(); elem.delete_fn(elem.obj);
  _objects.pop_back(); }\<close>
\<close>

definition remove_last_one :: "pool_ref \<Rightarrow> 'ty memory \<Rightarrow> 'ty memory" where
  "remove_last_one this m =
     (if get_objects this m \<noteq> [] then
        let elem = last (get_objects this m);
            m1 = invoke elem m
        in set_objects this (butlast (get_objects this m1)) m1
      else m)"

text \<open>
  \<^verbatim>\<open>_objects.insert(_objects.end(), src->_objects.begin(), src->_objects.end());
  src->_objects.clear();\<close>
  The two statements are taken in program order on the store, so the model also has a value
  when \<^verbatim>\<open>src == this\<close>: the list is doubled and then emptied. (The C++ standard gives
  \<^verbatim>\<open>insert\<close> no meaning for a range of the list itself; an implementation that copies the
  range before linking it in computes this value.)
\<close>

definition acquire_data :: "pool_ref \<Rightarrow> pool_ref \<Rightarrow> 'ty memory \<Rightarrow> 'ty memory" where
  "acquire_data this src m =
     (let m1 = set_objects this (get_objects this m @ get_objects src m) m
      in set_objects src [] m1)"

text \<open>
  \<^verbatim>\<open>~ObjectPool() { clear(); }\<close>
  After the body the members are destroyed; the list is empty by then, so nothing more is
  called. The store keeps an empty pool at the address, as a pool constructed there anew.
\<close>

definition destructor :: "pool_ref \<Rightarrow> 'ty memory \<Rightarrow> 'ty memory" where
  "destructor this m = clear this m"

subsection \<open>The methods when a deletion function may throw\<close>

text \<open>
  The class catches nothing. A destructor declared \<^verbatim>\<open>noexcept(false)\<close> can leave
  \<^verbatim>\<open>elem.delete_fn(elem.obj)\<close> by an exception; the exception then leaves the method at
  that statement, the \<^verbatim>\<open>std::lock_guard\<close> releases the lock, and the statements after the
  call are not run. Which deletions throw is a parameter. A call of a method returns, or
  throws to its caller, who may catch and go on, or terminates the program: the destructor
  of the pool is implicitly \<^verbatim>\<open>noexcept\<close>, so an exception leaving its body calls
  \<^verbatim>\<open>std::terminate\<close>.
\<close>

datatype outcome = Returns | Throws | Terminates

text \<open>\<^verbatim>\<open>elem.delete_fn(elem.obj)\<close>: the call is made, then it returns or throws.\<close>

definition invoke_x :: "('ty event \<Rightarrow> bool) \<Rightarrow> 'ty Element \<Rightarrow> 'ty memory \<Rightarrow> outcome \<times> 'ty memory" where
  "invoke_x throwing elem m =
     (if throwing (call (delete_fn elem) (obj elem)) then Throws else Returns, invoke elem m)"

text \<open>The loop of \<^verbatim>\<open>clear\<close> stops at the first call that throws.\<close>

fun for_each_invoke_x ::
  "('ty event \<Rightarrow> bool) \<Rightarrow> 'ty Element list \<Rightarrow> 'ty memory \<Rightarrow> outcome \<times> 'ty memory" where
  "for_each_invoke_x throwing [] m = (Returns, m)"
| "for_each_invoke_x throwing (elem # rest) m =
     (case invoke_x throwing elem m of
        (Returns, m1) \<Rightarrow> for_each_invoke_x throwing rest m1
      | (e, m1) \<Rightarrow> (e, m1))"

text \<open>\<^verbatim>\<open>_objects.clear()\<close> is reached only when the loop has returned.\<close>

definition clear_x :: "('ty event \<Rightarrow> bool) \<Rightarrow> pool_ref \<Rightarrow> 'ty memory \<Rightarrow> outcome \<times> 'ty memory" where
  "clear_x throwing this m =
     (case for_each_invoke_x throwing (get_objects this m) m of
        (Returns, m1) \<Rightarrow> (Returns, set_objects this [] m1)
      | (e, m1) \<Rightarrow> (e, m1))"

text \<open>\<^verbatim>\<open>_objects.pop_back()\<close> is reached only when the call has returned.\<close>

definition remove_last_one_x ::
  "('ty event \<Rightarrow> bool) \<Rightarrow> pool_ref \<Rightarrow> 'ty memory \<Rightarrow> outcome \<times> 'ty memory" where
  "remove_last_one_x throwing this m =
     (if get_objects this m \<noteq> [] then
        let elem = last (get_objects this m)
        in (case invoke_x throwing elem m of
              (Returns, m1) \<Rightarrow> (Returns, set_objects this (butlast (get_objects this m1)) m1)
            | (e, m1) \<Rightarrow> (e, m1))
      else (Returns, m))"

text \<open>\<^verbatim>\<open>~ObjectPool() { clear(); }\<close>\<close>

definition destructor_x ::
  "('ty event \<Rightarrow> bool) \<Rightarrow> pool_ref \<Rightarrow> 'ty memory \<Rightarrow> outcome \<times> 'ty memory" where
  "destructor_x throwing this m =
     (case clear_x throwing this m of
        (Throws, m1) \<Rightarrow> (Terminates, m1)
      | (e, m1) \<Rightarrow> (e, m1))"

subsection \<open>Sequences of calls\<close>

text \<open>The calls a list of elements stands for, front to back.\<close>

definition calls_of :: "'ty Element list \<Rightarrow> 'ty event list" where
  "calls_of xs = map (\<lambda>elem. call (delete_fn elem) (obj elem)) xs"

text \<open>
  A registration is one call of \<^verbatim>\<open>add<T>(t)\<close> or of \<^verbatim>\<open>add_array<T>(t)\<close>; a sequence of them
  is run on one pool from left to right.
\<close>

datatype 'ty registration = Reg 'ty addr | Reg_array 'ty addr

fun register :: "pool_ref \<Rightarrow> 'ty registration \<Rightarrow> 'ty memory \<Rightarrow> 'ty memory" where
  "register this (Reg T t) m = snd (add this T t m)"
| "register this (Reg_array T t) m = snd (add_array this T t m)"

fun register_all :: "pool_ref \<Rightarrow> 'ty registration list \<Rightarrow> 'ty memory \<Rightarrow> 'ty memory" where
  "register_all this [] m = m"
| "register_all this (r # rs) m = register_all this rs (register this r m)"

text \<open>The deletion a registration asks for, and the element it is expected to store.\<close>

fun deletion :: "'ty registration \<Rightarrow> 'ty event" where
  "deletion (Reg T t) = Delete T t"
| "deletion (Reg_array T t) = Delete_array T t"

fun entry :: "'ty registration \<Rightarrow> 'ty Element" where
  "entry (Reg T t) = \<lparr>obj = t, delete_fn = Add_lambda T\<rparr>"
| "entry (Reg_array T t) = \<lparr>obj = t, delete_fn = Add_array_lambda T\<rparr>"

text \<open>
  A client of the class calls the public methods in any order, on any pools. Such a run
  starts where every pool is freshly constructed and nothing has been deleted.
\<close>

datatype 'ty operation =
    Add pool_ref 'ty addr
  | Add_array pool_ref 'ty addr
  | Clear pool_ref
  | Remove_last_one pool_ref
  | Acquire_data pool_ref pool_ref
  | Destructor pool_ref

fun exec :: "'ty operation \<Rightarrow> 'ty memory \<Rightarrow> 'ty memory" where
  "exec (Add this T t) m = snd (add this T t m)"
| "exec (Add_array this T t) m = snd (add_array this T t m)"
| "exec (Clear this) m = clear this m"
| "exec (Remove_last_one this) m = remove_last_one this m"
| "exec (Acquire_data this src) m = acquire_data this src m"
| "exec (Destructor this) m = destructor this m"

fun run :: "'ty operation list \<Rightarrow> 'ty memory \<Rightarrow> 'ty memory" where
  "run [] m = m"
| "run (c # cs) m = run cs (exec c m)"

text \<open>
  The same run with the exits made explicit: the exit of each call is recorded, a caller
  goes on after a call that threw, and nothing runs after the program has terminated.
\<close>

fun exec_x :: "('ty event \<Rightarrow> bool) \<Rightarrow> 'ty operation \<Rightarrow> 'ty memory \<Rightarrow> outcome \<times> 'ty memory" where
  "exec_x throwing (Add this T t) m = (Returns, snd (add this T t m))"
| "exec_x throwing (Add_array this T t) m = (Returns, snd (add_array this T t m))"
| "exec_x throwing (Clear this) m = clear_x throwing this m"
| "exec_x throwing (Remove_last_one this) m = remove_last_one_x throwing this m"
| "exec_x throwing (Acquire_data this src) m = (Returns, acquire_data this src m)"
| "exec_x throwing (Destructor this) m = destructor_x throwing this m"

fun run_x ::
  "('ty event \<Rightarrow> bool) \<Rightarrow> 'ty operation list \<Rightarrow> 'ty memory \<Rightarrow> outcome list \<times> 'ty memory" where
  "run_x throwing [] m = ([], m)"
| "run_x throwing (c # cs) m =
     (case exec_x throwing c m of
        (Terminates, m1) \<Rightarrow> ([Terminates], m1)
      | (e, m1) \<Rightarrow> (case run_x throwing cs m1 of (es, m2) \<Rightarrow> (e # es, m2)))"

text \<open>The deletions asked for by the registrations of a run, in their order.\<close>

fun registered :: "'ty operation list \<Rightarrow> 'ty event list" where
  "registered [] = []"
| "registered (Add this T t # cs) = Delete T t # registered cs"
| "registered (Add_array this T t # cs) = Delete_array T t # registered cs"
| "registered (c # cs) = registered cs"

text \<open>The deletions still owed by the pools at the given addresses.\<close>

definition held :: "pool_ref list \<Rightarrow> 'ty memory \<Rightarrow> 'ty event list" where
  "held ps m = concat (map (\<lambda>p. calls_of (get_objects p m)) ps)"

text \<open>The pools a call reads or writes.\<close>

fun touched :: "'ty operation \<Rightarrow> pool_ref list" where
  "touched (Add this T t) = [this]"
| "touched (Add_array this T t) = [this]"
| "touched (Clear this) = [this]"
| "touched (Remove_last_one this) = [this]"
| "touched (Acquire_data this src) = [this, src]"
| "touched (Destructor this) = [this]"

text \<open>
  Every deletion done or still owed is covered by the budget \<open>B\<close>, whichever pools are
  looked at.
\<close>

definition accounted :: "'ty memory \<Rightarrow> 'ty event multiset \<Rightarrow> bool" where
  "accounted m B = (\<forall>ps. distinct ps \<longrightarrow> mset (trace m) + mset (held ps m) \<subseteq># B)"

subsection \<open>Example runs\<close>

text \<open>Pool 1 holds one element and pool 2 holds three.\<close>

definition one_and_three :: "string memory" where
  "one_and_three =
     register_all 2 [Reg ''X'' 11, Reg_array ''X'' 12, Reg ''X'' 13]
       (register_all 1 [Reg ''Y'' 21] start)"

text \<open>Three objects registered in pool 0, in the order A, B, C.\<close>

definition three_in_order :: "string memory" where
  "three_in_order = register_all 0 [Reg ''A'' 1, Reg ''B'' 2, Reg ''C'' 3] start"

text \<open>Pool 1 holds two elements, pool 2 is empty.\<close>

definition two_and_none :: "string memory" where
  "two_and_none = register_all 1 [Reg ''Y'' 21, Reg_array ''Y'' 22] start"

text \<open>Two registrations, a transfer to another pool and a rollback there.\<close>

definition rollback_run :: "string operation list" where
  "rollback_run =
     [Add 0 ''A'' 1, Add_array 0 ''B'' 2, Acquire_data 1 0, Remove_last_one 1]"

text \<open>An object and an array registered in one pool, which is then cleared.\<close>

definition scenario :: "string operation list" where
  "scenario = [Add 0 ''int'' 5, Add_array 0 ''int'' 6, Clear 0]"

text \<open>The destructor of the second object throws; the pool is cleared twice.\<close>

definition second_throws :: "string event \<Rightarrow> bool" where
  "second_throws v = (v = Delete ''B'' 2)"

definition clear_twice :: "string operation list" where
  "clear_twice = [Add 0 ''A'' 1, Add 0 ''B'' 2, Add 0 ''C'' 3, Clear 0, Clear 0]"

section \<open>Auxiliary facts\<close>

subsection \<open>Reading the store after a write\<close>

lemma get_set_objects:
  "get_objects q (set_objects p xs m) = (if q = p then xs else get_objects q m)"
  by (simp add: get_objects_def set_objects_def)

lemma trace_set_objects: "trace (set_objects p xs m) = trace m"
  by (simp add: set_objects_def)

lemma get_objects_invoke: "get_objects q (invoke e m) = get_objects q m"
  by (simp add: get_objects_def invoke_def)

lemma trace_invoke: "trace (invoke e m) = trace m @ [call (delete_fn e) (obj e)]"
  by (simp add: invoke_def)

lemma pools_invoke: "pools (invoke e m) = pools m"
  by (simp add: invoke_def)

lemma set_objects_same: "get_objects p m = xs \<Longrightarrow> set_objects p xs m = m"
  by (auto simp add: get_objects_def set_objects_def)

lemma set_objects_twice: "set_objects p xs (set_objects p ys m) = set_objects p xs m"
  by (simp add: set_objects_def)

lemma get_objects_start: "get_objects p start = []"
  by (simp add: get_objects_def start_def ObjectPool_default_def)

lemma trace_start: "trace start = []"
  by (simp add: start_def)

subsection \<open>The loop of \<^verbatim>\<open>clear\<close>\<close>

lemma trace_for_each_invoke: "trace (for_each_invoke xs m) = trace m @ calls_of xs"
  by (induction xs arbitrary: m) (simp_all add: calls_of_def trace_invoke)

lemma pools_for_each_invoke: "pools (for_each_invoke xs m) = pools m"
  by (induction xs arbitrary: m) (simp_all add: pools_invoke)

lemma get_objects_for_each_invoke: "get_objects q (for_each_invoke xs m) = get_objects q m"
  by (simp add: get_objects_def pools_for_each_invoke)

lemma get_objects_clear:
  "get_objects q (clear p m) = (if q = p then [] else get_objects q m)"
  by (simp add: clear_def get_set_objects get_objects_for_each_invoke)

lemma trace_clear: "trace (clear p m) = trace m @ calls_of (get_objects p m)"
  by (simp add: clear_def trace_set_objects trace_for_each_invoke)

lemma clear_empty: "get_objects this m = [] \<Longrightarrow> clear this m = m"
  by (simp add: clear_def set_objects_same)

lemma clear_clear: "clear this (clear this m) = clear this m"
  by (simp add: clear_empty get_objects_clear)

lemma calls_of_append: "calls_of (xs @ ys) = calls_of xs @ calls_of ys"
  by (simp add: calls_of_def)

lemma entry_in_calls: "e \<in> set xs \<Longrightarrow> call (delete_fn e) (obj e) \<in> set (calls_of xs)"
  by (simp add: calls_of_def)

subsection \<open>Registration\<close>

lemma register_eq: "register p r m = set_objects p (get_objects p m @ [entry r]) m"
  by (cases r) (simp_all add: add_def add_array_def)

lemma get_objects_register:
  "get_objects q (register p r m) = (if q = p then get_objects p m @ [entry r] else get_objects q m)"
  by (simp add: register_eq get_set_objects)

lemma trace_register: "trace (register p r m) = trace m"
  by (simp add: register_eq trace_set_objects)

lemma get_objects_register_all:
  "get_objects q (register_all p rs m) =
     (if q = p then get_objects p m @ map entry rs else get_objects q m)"
  by (induction rs arbitrary: m) (simp_all add: get_objects_register)

lemma trace_register_all: "trace (register_all p rs m) = trace m"
  by (induction rs arbitrary: m) (simp_all add: trace_register)

lemma call_entry: "call (delete_fn (entry r)) (obj (entry r)) = deletion r"
  by (cases r) simp_all

lemma calls_of_entry: "calls_of (map entry rs) = map deletion rs"
proof -
  have "call (delete_fn (entry r)) (obj (entry r)) = deletion r" for r :: "'a registration"
    by (cases r) simp_all
  then show ?thesis
    by (simp add: calls_of_def)
qed

lemma trace_add: "trace (snd (add p T t m)) = trace m" "trace (snd (add_array p T t m)) = trace m"
  by (simp_all add: add_def add_array_def trace_set_objects)

subsection \<open>Rollback and transfer\<close>

lemma remove_last_one_snoc:
  assumes "get_objects this m = xs @ [e]"
  shows "trace (remove_last_one this m) = trace m @ [call (delete_fn e) (obj e)]"
    and "get_objects q (remove_last_one this m) = (if q = this then xs else get_objects q m)"
  using assms
  by (simp_all add: remove_last_one_def Let_def trace_set_objects trace_invoke
      get_set_objects get_objects_invoke)

lemma remove_last_one_empty: "get_objects this m = [] \<Longrightarrow> remove_last_one this m = m"
  by (simp add: remove_last_one_def)

lemma acquire_data_eq:
  "this \<noteq> src \<Longrightarrow>
   get_objects q (acquire_data this src m) =
     (if q = src then [] else if q = this then get_objects this m @ get_objects src m
      else get_objects q m)"
  by (simp add: acquire_data_def get_set_objects)

lemma trace_acquire_data: "trace (acquire_data this src m) = trace m"
  by (simp add: acquire_data_def trace_set_objects)

subsection \<open>Accounting of deletions over a run\<close>

text \<open>
  Over the pools at any distinct addresses that include those a call touches, the deletions
  done together with the deletions still owed grow by what the call registers and by nothing
  else. Hence, from the start, they never exceed what has been registered.
\<close>

lemma held_set_objects_other: "p \<notin> set ps \<Longrightarrow> held ps (set_objects p xs m) = held ps m"
  by (induction ps) (auto simp: held_def get_set_objects)

lemma held_invoke: "held ps (invoke e m) = held ps m"
  by (simp add: held_def get_objects_invoke)

lemma held_for_each_invoke: "held ps (for_each_invoke xs m) = held ps m"
  by (simp add: held_def get_objects_for_each_invoke)

lemma held_Cons: "held (p # ps) m = calls_of (get_objects p m) @ held ps m"
  by (simp add: held_def)

lemma held_append: "held (ps @ qs) m = held ps m @ held qs m"
  by (simp add: held_def)

lemma mset_held_split:
  "distinct ps \<Longrightarrow> p \<in> set ps \<Longrightarrow>
     mset (held ps m) = mset (calls_of (get_objects p m)) + mset (held (remove1 p ps) m)"
  by (induction ps) (auto simp: held_Cons)

lemma mset_held_set_objects:
  assumes "distinct ps" and "p \<in> set ps"
  shows "mset (held ps (set_objects p xs m)) = mset (calls_of xs) + mset (held (remove1 p ps) m)"
proof -
  have "p \<notin> set (remove1 p ps)"
    using assms by simp
  then have "held (remove1 p ps) (set_objects p xs m) = held (remove1 p ps) m"
    by (rule held_set_objects_other)
  then show ?thesis
    using mset_held_split [OF assms, of "set_objects p xs m"] by (simp add: get_set_objects)
qed

lemma step_register:
  assumes "distinct ps" and "p \<in> set ps"
  shows "mset (trace (register p r m)) + mset (held ps (register p r m))
       = mset (trace m) + mset (held ps m) + {#deletion r#}"
proof -
  have "calls_of [entry r] = [deletion r]"
    using calls_of_entry [of "[r]"] by simp
  then show ?thesis
    using assms
    by (simp add: register_eq trace_set_objects mset_held_set_objects calls_of_append
        mset_held_split [OF assms, of m])
qed

lemma step_clear:
  assumes "distinct ps" and "p \<in> set ps"
  shows "mset (trace (clear p m)) + mset (held ps (clear p m)) = mset (trace m) + mset (held ps m)"
proof -
  have "mset (held ps (clear p m)) = mset (held (remove1 p ps) m)"
    using mset_held_set_objects [OF assms, of "[]" "for_each_invoke (get_objects p m) m"]
    by (simp add: clear_def held_for_each_invoke calls_of_def)
  then show ?thesis
    by (simp add: trace_clear mset_held_split [OF assms, of m])
qed

lemma step_remove_last_one:
  assumes "distinct ps" and "p \<in> set ps"
  shows "mset (trace (remove_last_one p m)) + mset (held ps (remove_last_one p m))
       = mset (trace m) + mset (held ps m)"
proof (cases "get_objects p m = []")
  case True
  then show ?thesis by (simp add: remove_last_one_def)
next
  case False
  then obtain xs e where snoc: "get_objects p m = xs @ [e]"
    by (metis append_butlast_last_id)
  have "remove_last_one p m = set_objects p xs (invoke e m)"
    using snoc by (simp add: remove_last_one_def Let_def get_objects_invoke)
  then show ?thesis
    using snoc
    by (simp add: trace_set_objects trace_invoke mset_held_set_objects [OF assms] held_invoke
        mset_held_split [OF assms, of m] calls_of_def)
qed

lemma step_acquire_data:
  assumes "distinct ps" and "d \<in> set ps" and "s \<in> set ps"
  shows "mset (trace (acquire_data d s m)) + mset (held ps (acquire_data d s m))
       \<subseteq># mset (trace m) + mset (held ps m)"
proof (cases "d = s")
  case True
  have "acquire_data d d m = set_objects d [] m"
    by (simp add: acquire_data_def set_objects_twice)
  then show ?thesis
    using True
    by (simp add: trace_set_objects mset_held_set_objects [OF assms(1,3)]
        mset_held_split [OF assms(1,3), of m] calls_of_def)
next
  case False
  let ?qs = "remove1 s ps"
  have qs: "distinct ?qs" "d \<in> set ?qs"
    using assms False by simp_all
  have "mset (held ps (acquire_data d s m))
      = mset (held ?qs (set_objects d (get_objects d m @ get_objects s m) m))"
    using mset_held_set_objects [OF assms(1,3), of "[]"]
    by (simp add: acquire_data_def calls_of_def)
  also have "\<dots> = mset (calls_of (get_objects d m @ get_objects s m))
      + mset (held (remove1 d ?qs) m)"
    by (rule mset_held_set_objects [OF qs])
  finally have after: "mset (held ps (acquire_data d s m))
      = mset (calls_of (get_objects d m)) + mset (calls_of (get_objects s m))
        + mset (held (remove1 d ?qs) m)"
    by (simp add: calls_of_append)
  have before: "mset (held ps m)
      = mset (calls_of (get_objects s m)) + (mset (calls_of (get_objects d m))
        + mset (held (remove1 d ?qs) m))"
    using mset_held_split [OF assms(1,3), of m] mset_held_split [OF qs, of m] by simp
  show ?thesis
    by (simp add: after before trace_acquire_data)
qed

lemma step_exec:
  assumes "distinct ps" and "set (touched c) \<subseteq> set ps"
  shows "mset (trace (exec c m)) + mset (held ps (exec c m))
       \<subseteq># mset (trace m) + mset (held ps m) + mset (registered [c])"
proof (cases c)
  case (Add p T t)
  then show ?thesis
    using step_register [of ps p "Reg T t" m] assms by simp
next
  case (Add_array p T t)
  then show ?thesis
    using step_register [of ps p "Reg_array T t" m] assms by simp
next
  case (Clear p)
  then show ?thesis
    using step_clear [of ps p m] assms by simp
next
  case (Remove_last_one p)
  then show ?thesis
    using step_remove_last_one [of ps p m] assms by simp
next
  case (Acquire_data d s)
  then show ?thesis
    using step_acquire_data [of ps d s m] assms by simp
next
  case (Destructor p)
  then show ?thesis
    using step_clear [of ps p m] assms by (simp add: destructor_def)
qed

lemma accounted_exec:
  assumes "accounted m B"
  shows "accounted (exec c m) (B + mset (registered [c]))"
  unfolding accounted_def
proof (intro allI impI)
  fix ps :: "pool_ref list"
  assume d: "distinct ps"
  define qs where "qs = ps @ filter (\<lambda>p. p \<notin> set ps) (remdups (touched c))"
  have dq: "distinct qs" and tq: "set (touched c) \<subseteq> set qs"
    using d by (auto simp: qs_def)
  have "mset (held ps (exec c m)) \<subseteq># mset (held qs (exec c m))"
    by (simp add: qs_def held_append)
  then have "mset (trace (exec c m)) + mset (held ps (exec c m))
      \<subseteq># mset (trace (exec c m)) + mset (held qs (exec c m))"
    by simp
  also have "\<dots> \<subseteq># mset (trace m) + mset (held qs m) + mset (registered [c])"
    by (rule step_exec [OF dq tq])
  also have "\<dots> \<subseteq># B + mset (registered [c])"
    using assms dq by (simp add: accounted_def)
  finally show "mset (trace (exec c m)) + mset (held ps (exec c m)) \<subseteq># B + mset (registered [c])" .
qed

lemma registered_Cons: "mset (registered (c # cs)) = mset (registered [c]) + mset (registered cs)"
  by (cases c) simp_all

lemma accounted_run: "accounted m B \<Longrightarrow> accounted (run cs m) (B + mset (registered cs))"
proof (induction cs arbitrary: m B)
  case Nil
  then show ?case by simp
next
  case (Cons c cs)
  have "accounted (run cs (exec c m)) (B + mset (registered [c]) + mset (registered cs))"
    by (rule Cons.IH [OF accounted_exec [OF Cons.prems]])
  then show ?case
    using registered_Cons [of c cs] by (simp add: add.assoc)
qed

lemma held_start: "held ps start = []"
  by (simp add: held_def get_objects_start calls_of_def)

lemma accounted_start: "accounted start {#}"
  by (simp add: accounted_def held_start trace_start)

lemma accounting:
  "distinct ps \<Longrightarrow> mset (trace (run cs start)) + mset (held ps (run cs start)) \<subseteq># mset (registered cs)"
  using accounted_run [OF accounted_start, of cs] by (simp add: accounted_def)

lemma destroyed_entry_gone:
  assumes once: "count_list (registered cs) (deletion r) = 1"
    and destroyed: "deletion r \<in> set (trace (run cs start))"
  shows "count_list (trace (run cs start)) (deletion r) = 1"
    and "entry r \<notin> set (get_objects p (run cs start))"
proof -
  let ?m = "run cs start"
  have "mset (trace ?m) + mset (held [p] ?m) \<subseteq># mset (registered cs)"
    by (rule accounting) simp
  then have "count (mset (trace ?m) + mset (held [p] ?m)) (deletion r)
      \<le> count (mset (registered cs)) (deletion r)"
    by (rule mset_subset_eq_count)
  then have le: "count_list (trace ?m) (deletion r)
      + count_list (calls_of (get_objects p ?m)) (deletion r) \<le> 1"
    using once by (simp add: held_def count_mset)
  have "count_list (trace ?m) (deletion r) \<noteq> 0"
    using destroyed by (simp add: count_list_0_iff)
  then have pos: "0 < count_list (trace ?m) (deletion r)"
    by simp
  show "count_list (trace ?m) (deletion r) = 1"
    using le pos by simp
  have "count_list (calls_of (get_objects p ?m)) (deletion r) = 0"
    using le pos by simp
  then have "deletion r \<notin> set (calls_of (get_objects p ?m))"
    by (simp add: count_list_0_iff)
  then show "entry r \<notin> set (get_objects p ?m)"
    using entry_in_calls [of "entry r" "get_objects p ?m"] by (auto simp: call_entry)
qed

lemma destroying_removes:
  assumes "c \<in> {Clear p, Remove_last_one p, Destructor p}"
  shows "\<exists>removed. get_objects p m = get_objects p (exec c m) @ removed
      \<and> trace (exec c m) = trace m @ calls_of removed"
proof -
  have clr: "get_objects p m = get_objects p (clear p m) @ get_objects p m
      \<and> trace (clear p m) = trace m @ calls_of (get_objects p m)"
    by (simp add: get_objects_clear trace_clear)
  have rm: "\<exists>removed. get_objects p m = get_objects p (remove_last_one p m) @ removed
      \<and> trace (remove_last_one p m) = trace m @ calls_of removed"
  proof (cases "get_objects p m = []")
    case True
    then have "get_objects p m = get_objects p (remove_last_one p m) @ []
        \<and> trace (remove_last_one p m) = trace m @ calls_of []"
      by (simp add: remove_last_one_empty calls_of_def)
    then show ?thesis ..
  next
    case False
    then obtain xs e where snoc: "get_objects p m = xs @ [e]"
      by (metis append_butlast_last_id)
    have "get_objects p m = get_objects p (remove_last_one p m) @ [e]
        \<and> trace (remove_last_one p m) = trace m @ calls_of [e]"
      using remove_last_one_snoc [OF snoc] snoc by (simp add: calls_of_def)
    then show ?thesis ..
  qed
  from assms consider "c = Clear p" | "c = Remove_last_one p" | "c = Destructor p"
    by auto
  then show ?thesis
  proof cases
    case 1
    then show ?thesis using clr by auto
  next
    case 2
    then show ?thesis using rm by simp
  next
    case 3
    then show ?thesis using clr by (auto simp: destructor_def)
  qed
qed

lemma registered_origin:
  "(Delete T t \<in> set (registered cs) \<longrightarrow> (\<exists>p. Add p T t \<in> set cs))
   \<and> (Delete_array T t \<in> set (registered cs) \<longrightarrow> (\<exists>p. Add_array p T t \<in> set cs))"
  by (induction cs rule: registered.induct) auto

lemma trace_registered: "set (trace (run cs start)) \<subseteq> set (registered cs)"
proof -
  have "mset (trace (run cs start)) + mset (held [] (run cs start)) \<subseteq># mset (registered cs)"
    by (rule accounting) simp
  then have "mset (trace (run cs start)) \<subseteq># mset (registered cs)"
    by (simp add: held_def)
  then have "set_mset (mset (trace (run cs start))) \<subseteq> set_mset (mset (registered cs))"
    by (rule set_mset_mono)
  then show ?thesis
    by simp
qed

subsection \<open>Calls that return\<close>

text \<open>
  A call that returns leaves the memory that the first form of the method computes, and a
  run in which every call returns is a run of the first form.
\<close>

lemma for_each_invoke_x_returns:
  "for_each_invoke_x throwing xs m = (Returns, m1) \<Longrightarrow> m1 = for_each_invoke xs m"
  by (induction xs arbitrary: m) (auto simp: invoke_x_def split: if_splits)

lemma clear_x_returns: "clear_x throwing p m = (Returns, m1) \<Longrightarrow> m1 = clear p m"
  by (auto simp: clear_x_def clear_def split: prod.splits outcome.splits
      dest: for_each_invoke_x_returns)

lemma remove_last_one_x_returns:
  "remove_last_one_x throwing p m = (Returns, m1) \<Longrightarrow> m1 = remove_last_one p m"
  by (auto simp: remove_last_one_x_def remove_last_one_def invoke_x_def Let_def
      split: if_splits)

lemma destructor_x_returns: "destructor_x throwing p m = (Returns, m1) \<Longrightarrow> m1 = destructor p m"
  by (auto simp: destructor_x_def destructor_def split: prod.splits outcome.splits
      dest: clear_x_returns)

lemma exec_x_returns: "exec_x throwing c m = (Returns, m1) \<Longrightarrow> m1 = exec c m"
  by (cases c)
    (auto dest: clear_x_returns remove_last_one_x_returns destructor_x_returns)

lemma run_x_returns:
  "set (fst (run_x throwing cs m)) \<subseteq> {Returns} \<Longrightarrow> snd (run_x throwing cs m) = run cs m"
proof (induction cs arbitrary: m)
  case Nil
  then show ?case by simp
next
  case (Cons c cs)
  obtain e m1 where ex: "exec_x throwing c m = (e, m1)"
    by (cases "exec_x throwing c m")
  obtain es m2 where rn: "run_x throwing cs m1 = (es, m2)"
    by (cases "run_x throwing cs m1")
  have e: "e = Returns"
    using Cons.prems ex rn by (cases e) simp_all
  then have m1: "m1 = exec c m"
    using ex exec_x_returns by blast
  have "set (fst (run_x throwing cs m1)) \<subseteq> {Returns}"
    using Cons.prems ex rn e by simp
  then have "snd (run_x throwing cs m1) = run cs m1"
    by (rule Cons.IH)
  then show ?case
    using ex rn e m1 by simp
qed

lemma never_throwing_exec: "exec_x (\<lambda>_. False) c m = (Returns, exec c m)"
proof -
  have f: "for_each_invoke_x (\<lambda>_. False) xs m' = (Returns, for_each_invoke xs m')"
    for xs and m' :: "'a memory"
    by (induction xs arbitrary: m') (simp_all add: invoke_x_def)
  show ?thesis
    by (cases c)
      (simp_all add: clear_x_def clear_def remove_last_one_x_def remove_last_one_def
        destructor_x_def destructor_def invoke_x_def Let_def f)
qed

subsection \<open>The example runs, evaluated\<close>

lemma one_and_three_objects:
  "get_objects 1 one_and_three = map entry [Reg ''Y'' 21]
   \<and> get_objects 2 one_and_three = map entry [Reg ''X'' 11, Reg_array ''X'' 12, Reg ''X'' 13]
   \<and> trace one_and_three = []"
  by (simp add: one_and_three_def add_def add_array_def get_objects_def set_objects_def start_def
      ObjectPool_default_def)

lemma three_in_order_objects:
  "get_objects 0 three_in_order = [entry (Reg ''A'' 1), entry (Reg ''B'' 2)] @ [entry (Reg ''C'' 3)]
   \<and> trace three_in_order = []"
  by (simp add: three_in_order_def add_def add_array_def get_objects_def set_objects_def start_def
      ObjectPool_default_def)

lemma clear_twice_result:
  "run_x second_throws clear_twice start =
     ([Returns, Returns, Returns, Throws, Throws],
      \<lparr>pools = (\<lambda>_. ObjectPool_default)
         (0 := \<lparr>objects = map entry [Reg ''A'' 1, Reg ''B'' 2, Reg ''C'' 3]\<rparr>),
       trace = [Delete ''A'' 1, Delete ''B'' 2, Delete ''A'' 1, Delete ''B'' 2]\<rparr>)"
  by (simp add: clear_twice_def second_throws_def clear_x_def invoke_x_def invoke_def add_def
      get_objects_def set_objects_def start_def ObjectPool_default_def)

section \<open>Properties\<close>

subsection \<open>Bulk release\<close>

text \<open>
  C1. \<^verbatim>\<open>clear\<close> calls the deletion function of every element the pool holds, each one once
  and in the order of insertion, and nothing else; afterwards the pool holds no element and
  the other pools are as they were. In particular, when any sequence of registrations is
  followed by \<^verbatim>\<open>clear\<close>, the deletions performed are those of the elements held before,
  then one for each registration, in the order of the registrations, and the pool ends
  empty; on a fresh pool they are exactly the registered ones.
\<close>

theorem clear_destroys_all_in_order:
  "trace (clear this m) = trace m @ calls_of (get_objects this m)
   \<and> length (calls_of (get_objects this m)) = length (get_objects this m)
   \<and> get_objects q (clear this m) = (if q = this then [] else get_objects q m)
   \<and> trace (clear this (register_all this rs m))
       = trace m @ calls_of (get_objects this m) @ map deletion rs
   \<and> get_objects this (clear this (register_all this rs m)) = []
   \<and> trace (clear this (register_all this rs start)) = map deletion rs"
proof -
  have len: "length (calls_of (get_objects this m)) = length (get_objects this m)"
    by (simp add: calls_of_def)
  have after: "trace (clear this (register_all this rs m'))
      = trace m' @ calls_of (get_objects this m') @ map deletion rs" for m'
    by (simp add: trace_clear get_objects_register_all trace_register_all
        calls_of_append calls_of_entry)
  have fresh: "trace (start :: 'a memory) = [] \<and> get_objects this (start :: 'a memory) = []"
    by (simp add: start_def get_objects_def ObjectPool_default_def)
  have "trace (clear this (register_all this rs start)) = map deletion rs"
    using after [of start] fresh by (simp add: calls_of_def)
  then show ?thesis
    using len after [of m] by (simp add: trace_clear get_objects_clear)
qed

subsection \<open>Transfer\<close>

text \<open>
  C2. For a destination and a source that are two pools, \<^verbatim>\<open>acquire_data\<close> leaves in the
  destination its own elements followed by those of the source, in the order the source
  had them; the source ends empty, every other pool is unchanged, and no deletion function
  is called.
\<close>

theorem acquire_data_moves_all:
  "this \<noteq> src \<Longrightarrow>
     get_objects this (acquire_data this src m) = get_objects this m @ get_objects src m
   \<and> get_objects src (acquire_data this src m) = []
   \<and> get_objects q (acquire_data this src m) =
       (if q = src then [] else if q = this then get_objects this m @ get_objects src m
        else get_objects q m)
   \<and> trace (acquire_data this src m) = trace m"
  by (simp add: acquire_data_eq trace_acquire_data)

theorem acquire_data_moves_all_witness:
  "(1::pool_ref) \<noteq> 2
   \<and> get_objects 1 one_and_three = map entry [Reg ''Y'' 21]
   \<and> get_objects 2 one_and_three = map entry [Reg ''X'' 11, Reg_array ''X'' 12, Reg ''X'' 13]
   \<and> get_objects 1 (acquire_data 1 2 one_and_three)
       = map entry [Reg ''Y'' 21, Reg ''X'' 11, Reg_array ''X'' 12, Reg ''X'' 13]
   \<and> get_objects 2 (acquire_data 1 2 one_and_three) = []
   \<and> trace (acquire_data 1 2 one_and_three) = []"
  using acquire_data_moves_all [of 1 2 one_and_three] one_and_three_objects by simp

subsection \<open>Rollback of the last registration\<close>

text \<open>
  C3. On a pool whose list is not empty, \<^verbatim>\<open>remove_last_one\<close> calls the deletion function of
  the last element only, once, and removes that element: the earlier elements stay as they
  were and in place, and so does every other pool. On a pool whose list is empty it changes
  nothing and calls nothing.
\<close>

theorem remove_last_one_lifo:
  "(get_objects this m = xs @ [e] \<longrightarrow>
       trace (remove_last_one this m) = trace m @ [call (delete_fn e) (obj e)]
     \<and> get_objects this (remove_last_one this m) = xs
     \<and> (\<forall>q. q \<noteq> this \<longrightarrow> get_objects q (remove_last_one this m) = get_objects q m))
   \<and> (get_objects this m = [] \<longrightarrow> remove_last_one this m = m)"
  by (simp add: remove_last_one_snoc remove_last_one_empty)

theorem remove_last_one_lifo_witness:
  "get_objects 0 three_in_order = [entry (Reg ''A'' 1), entry (Reg ''B'' 2)] @ [entry (Reg ''C'' 3)]
   \<and> trace (remove_last_one 0 three_in_order) = [Delete ''C'' 3]
   \<and> get_objects 0 (remove_last_one 0 three_in_order) = [entry (Reg ''A'' 1)] @ [entry (Reg ''B'' 2)]
   \<and> trace (remove_last_one 0 (remove_last_one 0 three_in_order)) = [Delete ''C'' 3, Delete ''B'' 2]
   \<and> get_objects 0 (remove_last_one 0 (remove_last_one 0 three_in_order)) = [entry (Reg ''A'' 1)]
   \<and> trace (clear 0 (remove_last_one 0 (remove_last_one 0 three_in_order)))
       = [Delete ''C'' 3, Delete ''B'' 2, Delete ''A'' 1]
   \<and> get_objects 0 (start :: string memory) = []
   \<and> remove_last_one 0 (start :: string memory) = start"
proof -
  note ABC = three_in_order_objects
  have 1: "trace (remove_last_one 0 three_in_order) = [Delete ''C'' 3]
      \<and> get_objects 0 (remove_last_one 0 three_in_order) = [entry (Reg ''A'' 1)] @ [entry (Reg ''B'' 2)]"
    using remove_last_one_lifo
      [of 0 three_in_order "[entry (Reg ''A'' 1), entry (Reg ''B'' 2)]" "entry (Reg ''C'' 3)"] ABC
    by simp
  have 2: "trace (remove_last_one 0 (remove_last_one 0 three_in_order)) = [Delete ''C'' 3, Delete ''B'' 2]
      \<and> get_objects 0 (remove_last_one 0 (remove_last_one 0 three_in_order)) = [entry (Reg ''A'' 1)]"
    using remove_last_one_lifo
      [of 0 "remove_last_one 0 three_in_order" "[entry (Reg ''A'' 1)]" "entry (Reg ''B'' 2)"] 1
    by simp
  have 3: "trace (clear 0 (remove_last_one 0 (remove_last_one 0 three_in_order)))
       = [Delete ''C'' 3, Delete ''B'' 2, Delete ''A'' 1]"
    using 2 by (simp add: trace_clear calls_of_def)
  have 4: "remove_last_one 0 (start :: string memory) = start"
    using remove_last_one_lifo [of 0 "start :: string memory"] by (simp add: get_objects_start)
  show ?thesis
    using ABC 1 2 3 4 by (simp add: get_objects_start)
qed

subsection \<open>Destruction of a pool\<close>

text \<open>
  C4. The destructor does what \<^verbatim>\<open>clear\<close> does: it calls the deletion function of every
  element the pool holds, once each and in order, also when \<^verbatim>\<open>clear\<close> was never called
  before, and the destroyed pool holds no element.
\<close>

theorem destructor_is_clear:
  "destructor this m = clear this m
   \<and> trace (destructor this m) = trace m @ calls_of (get_objects this m)
   \<and> length (calls_of (get_objects this m)) = length (get_objects this m)
   \<and> get_objects this (destructor this m) = []
   \<and> trace (destructor this (register_all this rs start)) = map deletion rs"
proof -
  have "trace (clear this (register_all this rs start)) = map deletion rs"
    by (simp add: trace_clear get_objects_register_all trace_register_all
        calls_of_entry get_objects_start trace_start)
  then show ?thesis
    by (simp add: destructor_def trace_clear get_objects_clear calls_of_def)
qed

subsection \<open>No element is destroyed twice\<close>

text \<open>
  C5. The claim fails when a deletion function throws: the exception leaves \<^verbatim>\<open>clear\<close>
  before \<^verbatim>\<open>_objects.clear()\<close> (and \<^verbatim>\<open>remove_last_one\<close> before \<^verbatim>\<open>pop_back()\<close>), so the
  elements already destroyed stay in the list. With three objects registered and the
  destructor of the second throwing, two calls of \<^verbatim>\<open>clear\<close> call the deletion function of
  the first object twice, and that object is still in the list afterwards.
\<close>

theorem throwing_clear_destroys_twice:
  "fst (run_x second_throws clear_twice start) = [Returns, Returns, Returns, Throws, Throws]
   \<and> trace (snd (run_x second_throws clear_twice start))
       = [Delete ''A'' 1, Delete ''B'' 2, Delete ''A'' 1, Delete ''B'' 2]
   \<and> count_list (registered clear_twice) (deletion (Reg ''A'' 1)) = 1
   \<and> deletion (Reg ''A'' 1) \<in> set (trace (snd (run_x second_throws clear_twice start)))
   \<and> count_list (trace (snd (run_x second_throws clear_twice start))) (deletion (Reg ''A'' 1)) = 2
   \<and> entry (Reg ''A'' 1) \<in> set (get_objects 0 (snd (run_x second_throws clear_twice start)))"
  by (simp add: clear_twice_result get_objects_def) (simp add: clear_twice_def)

text \<open>
  C5, amended. In every run of the public methods from freshly constructed pools in which
  every call returns (no deletion function throws), and at whichever pools one looks, the
  deletions done and the deletions still owed by the elements in the lists are together
  covered by the registrations, counted with multiplicity. So an element registered once,
  once its deletion function has been called, has had it called exactly once and is in the
  list of no pool. The removal happens in the call that destroys: what a returning call of
  \<^verbatim>\<open>clear\<close>, \<^verbatim>\<open>remove_last_one\<close> or the destructor deletes is exactly what it takes off the
  end of the list, and the other methods always return and delete nothing. As the run is
  arbitrary, this holds after each of its calls.
\<close>

theorem returning_runs_destroy_once:
  "set (fst (run_x throwing cs start)) \<subseteq> {Returns} \<Longrightarrow>
     (distinct ps \<longrightarrow>
        mset (trace (snd (run_x throwing cs start))) + mset (held ps (snd (run_x throwing cs start)))
          \<subseteq># mset (registered cs))
   \<and> (count_list (registered cs) (deletion r) = 1
        \<and> deletion r \<in> set (trace (snd (run_x throwing cs start))) \<longrightarrow>
          count_list (trace (snd (run_x throwing cs start))) (deletion r) = 1
          \<and> (\<forall>p. entry r \<notin> set (get_objects p (snd (run_x throwing cs start)))))
   \<and> (fst (exec_x throwing c m) = Returns \<and> c \<in> {Clear p, Remove_last_one p, Destructor p} \<longrightarrow>
        (\<exists>removed. get_objects p m = get_objects p (snd (exec_x throwing c m)) @ removed
           \<and> trace (snd (exec_x throwing c m)) = trace m @ calls_of removed))
   \<and> exec_x throwing (Add p T t) m = (Returns, snd (add p T t m))
   \<and> exec_x throwing (Add_array p T t) m = (Returns, snd (add_array p T t m))
   \<and> exec_x throwing (Acquire_data p q) m = (Returns, acquire_data p q m)
   \<and> trace (snd (add p T t m)) = trace m
   \<and> trace (snd (add_array p T t m)) = trace m
   \<and> trace (acquire_data p q m) = trace m"
proof -
  assume ret: "set (fst (run_x throwing cs start)) \<subseteq> {Returns}"
  have eq: "snd (run_x throwing cs start) = run cs start"
    using ret by (rule run_x_returns)
  have one: "fst (exec_x throwing c m) = Returns \<Longrightarrow> snd (exec_x throwing c m) = exec c m"
    using exec_x_returns [of throwing c m "snd (exec_x throwing c m)"]
    by (cases "exec_x throwing c m") simp
  show ?thesis
    using accounting [of ps cs] destroyed_entry_gone [of cs r] destroying_removes [of c p m] one
    by (simp add: eq trace_add trace_acquire_data)
qed

theorem returning_runs_destroy_once_witness:
  "fst (run_x second_throws rollback_run start) = [Returns, Returns, Returns, Returns]
   \<and> set (fst (run_x second_throws rollback_run start)) \<subseteq> {Returns}
   \<and> distinct [0, 1 :: pool_ref]
   \<and> trace (snd (run_x second_throws rollback_run start)) = [Delete_array ''B'' 2]
   \<and> held [0, 1] (snd (run_x second_throws rollback_run start)) = [Delete ''A'' 1]
   \<and> registered rollback_run = [Delete ''A'' 1, Delete_array ''B'' 2]
   \<and> mset (trace (snd (run_x second_throws rollback_run start)))
       + mset (held [0, 1] (snd (run_x second_throws rollback_run start)))
       \<subseteq># mset (registered rollback_run)
   \<and> count_list (registered rollback_run) (deletion (Reg_array ''B'' 2)) = 1
   \<and> deletion (Reg_array ''B'' 2) \<in> set (trace (snd (run_x second_throws rollback_run start)))
   \<and> count_list (trace (snd (run_x second_throws rollback_run start))) (deletion (Reg_array ''B'' 2)) = 1
   \<and> (\<forall>p. entry (Reg_array ''B'' 2)
         \<notin> set (get_objects p (snd (run_x second_throws rollback_run start))))
   \<and> fst (exec_x second_throws (Remove_last_one 1) (run (take 3 rollback_run) start)) = Returns
   \<and> Remove_last_one 1 \<in> {Clear 1, Remove_last_one 1, Destructor 1 :: string operation}
   \<and> (\<exists>removed. get_objects 1 (run (take 3 rollback_run) start)
         = get_objects 1 (snd (exec_x second_throws (Remove_last_one 1)
             (run (take 3 rollback_run) start))) @ removed
       \<and> trace (snd (exec_x second_throws (Remove_last_one 1) (run (take 3 rollback_run) start)))
         = trace (run (take 3 rollback_run) start) @ calls_of removed)"
proof -
  have x: "run_x second_throws rollback_run start =
      ([Returns, Returns, Returns, Returns],
       \<lparr>pools = (\<lambda>_. ObjectPool_default)(0 := \<lparr>objects = []\<rparr>,
          1 := \<lparr>objects = [entry (Reg ''A'' 1)]\<rparr>),
        trace = [Delete_array ''B'' 2]\<rparr>)"
    by (simp add: rollback_run_def second_throws_def remove_last_one_x_def invoke_x_def
        invoke_def acquire_data_def add_def add_array_def Let_def get_objects_def
        set_objects_def start_def ObjectPool_default_def)
  have h: "held [0, 1] (snd (run_x second_throws rollback_run start)) = [Delete ''A'' 1]"
    by (simp add: x held_def calls_of_def get_objects_def)
  have r: "registered rollback_run = [Delete ''A'' 1, Delete_array ''B'' 2]"
    by (simp add: rollback_run_def)
  have o: "fst (exec_x second_throws (Remove_last_one 1) (run (take 3 rollback_run) start))
      = Returns"
    by (simp add: rollback_run_def second_throws_def remove_last_one_x_def invoke_x_def
        invoke_def acquire_data_def add_def add_array_def Let_def get_objects_def
        set_objects_def start_def ObjectPool_default_def)
  have s: "set (fst (run_x second_throws rollback_run start)) \<subseteq> {Returns}"
    by (simp add: x)
  show ?thesis
    using returning_runs_destroy_once
      [OF s, where ps = "[0, 1]" and r = "Reg_array ''B'' 2" and c = "Remove_last_one 1"
        and p = 1 and m = "run (take 3 rollback_run) start"]
      h r o
    by (simp add: x)
qed

subsection \<open>Scalar and array deletion\<close>

text \<open>
  C6. The element stored by \<^verbatim>\<open>add<T>\<close> is destroyed by \<^verbatim>\<open>delete\<close> at type \<open>T\<close> and the one
  stored by \<^verbatim>\<open>add_array<T>\<close> by \<^verbatim>\<open>delete[]\<close> at type \<open>T\<close>, by \<^verbatim>\<open>remove_last_one\<close> as well as
  by \<^verbatim>\<open>clear\<close>. In any run from freshly constructed pools, a scalar deletion of a pointer
  at a type only happens if \<^verbatim>\<open>add\<close> registered that pointer at that type, and an array
  deletion only if \<^verbatim>\<open>add_array\<close> did.
\<close>

theorem deletion_kind_as_registered:
  "trace (remove_last_one p (snd (add p T t m))) = trace m @ [Delete T t]
   \<and> trace (remove_last_one p (snd (add_array p T t m))) = trace m @ [Delete_array T t]
   \<and> trace (clear p (snd (add p T t m))) = trace m @ calls_of (get_objects p m) @ [Delete T t]
   \<and> trace (clear p (snd (add_array p T t m)))
       = trace m @ calls_of (get_objects p m) @ [Delete_array T t]
   \<and> (Delete T' t' \<in> set (trace (run cs start)) \<longrightarrow> (\<exists>q. Add q T' t' \<in> set cs))
   \<and> (Delete_array T' t' \<in> set (trace (run cs start)) \<longrightarrow> (\<exists>q. Add_array q T' t' \<in> set cs))"
proof -
  have a: "get_objects p (snd (add p T t m)) = get_objects p m @ [\<lparr>obj = t, delete_fn = Add_lambda T\<rparr>]"
    by (simp add: add_def get_set_objects)
  have b: "get_objects p (snd (add_array p T t m))
      = get_objects p m @ [\<lparr>obj = t, delete_fn = Add_array_lambda T\<rparr>]"
    by (simp add: add_array_def get_set_objects)
  have 1: "trace (remove_last_one p (snd (add p T t m))) = trace m @ [Delete T t]"
    using remove_last_one_snoc(1) [OF a] by (simp add: trace_add)
  have 2: "trace (remove_last_one p (snd (add_array p T t m))) = trace m @ [Delete_array T t]"
    using remove_last_one_snoc(1) [OF b] by (simp add: trace_add)
  have 3: "trace (clear p (snd (add p T t m))) = trace m @ calls_of (get_objects p m) @ [Delete T t]"
    by (simp add: trace_clear a trace_add calls_of_def)
  have 4: "trace (clear p (snd (add_array p T t m)))
      = trace m @ calls_of (get_objects p m) @ [Delete_array T t]"
    by (simp add: trace_clear b trace_add calls_of_def)
  show ?thesis
    using 1 2 3 4 trace_registered [of cs] registered_origin [of T' t' cs] by auto
qed

theorem deletion_kind_as_registered_witness:
  "trace (run scenario start) = [Delete ''int'' 5, Delete_array ''int'' 6]
   \<and> get_objects 0 (run scenario start) = []
   \<and> Delete ''int'' 5 \<in> set (trace (run scenario start))
   \<and> (\<exists>q. Add q ''int'' 5 \<in> set scenario)
   \<and> Delete_array ''int'' 6 \<in> set (trace (run scenario start))
   \<and> (\<exists>q. Add_array q ''int'' 6 \<in> set scenario)"
proof -
  have t: "trace (run scenario start) = [Delete ''int'' 5, Delete_array ''int'' 6]
      \<and> get_objects 0 (run scenario start) = []"
    by (simp add: scenario_def add_def add_array_def clear_def invoke_def get_objects_def
        set_objects_def start_def ObjectPool_default_def)
  show ?thesis
    using deletion_kind_as_registered [of 0 "''int''" 5 start "''int''" 5 scenario]
      deletion_kind_as_registered [of 0 "''int''" 6 start "''int''" 6 scenario] t
    by simp
qed

subsection \<open>The value returned by a registration\<close>

text \<open>
  C7. Both forms of registration return the pointer they were given, whatever the pointer,
  the type and the state of the pools.
\<close>

theorem add_returns_pointer:
  "fst (add this T t m) = t \<and> fst (add_array this T t m) = t"
  by (simp add: add_def add_array_def)

subsection \<open>Clearing an empty pool\<close>

text \<open>
  C8. On a pool whose list is empty, \<^verbatim>\<open>clear\<close> changes nothing: it calls no deletion
  function and the pool stays empty. Hence a second \<^verbatim>\<open>clear\<close> right after a first has no
  further effect.
\<close>

theorem clear_empty_noop:
  "(get_objects this m = [] \<longrightarrow> clear this m = m \<and> trace (clear this m) = trace m
       \<and> get_objects this (clear this m) = [])
   \<and> clear this (clear this m) = clear this m"
  by (simp add: clear_empty clear_clear)

theorem clear_empty_noop_witness:
  "get_objects 0 (start :: string memory) = []
   \<and> clear 0 (start :: string memory) = start
   \<and> trace (clear 0 (start :: string memory)) = []
   \<and> clear 0 (clear 0 three_in_order) = clear 0 three_in_order"
  using clear_empty_noop [of 0 "start :: string memory"] clear_empty_noop [of 0 three_in_order]
  by (simp add: get_objects_start trace_start)

subsection \<open>Transfer from an empty pool\<close>

text \<open>
  C10. When the source holds no element, \<^verbatim>\<open>acquire_data\<close> changes nothing at all: the
  destination keeps its elements, with their pointers, deletion functions and order, the
  source stays empty and no deletion function is called.
\<close>

theorem acquire_data_empty_src:
  "get_objects src m = [] \<Longrightarrow>
     acquire_data this src m = m
   \<and> get_objects this (acquire_data this src m) = get_objects this m
   \<and> get_objects src (acquire_data this src m) = []
   \<and> trace (acquire_data this src m) = trace m"
proof -
  assume e: "get_objects src m = []"
  have "set_objects this (get_objects this m @ get_objects src m) m = m"
    by (simp add: e set_objects_same)
  then have "acquire_data this src m = m"
    by (simp add: acquire_data_def e set_objects_same)
  then show ?thesis
    by (simp add: e)
qed

theorem acquire_data_empty_src_witness:
  "get_objects 2 two_and_none = []
   \<and> acquire_data 1 2 two_and_none = two_and_none
   \<and> get_objects 1 (acquire_data 1 2 two_and_none) = map entry [Reg ''Y'' 21, Reg_array ''Y'' 22]
   \<and> get_objects 2 (acquire_data 1 2 two_and_none) = []
   \<and> trace (acquire_data 1 2 two_and_none) = []"
proof -
  have e: "get_objects 2 two_and_none = []"
    by (simp add: two_and_none_def add_def add_array_def get_objects_def set_objects_def start_def
      ObjectPool_default_def)
  have d: "get_objects 1 two_and_none = map entry [Reg ''Y'' 21, Reg_array ''Y'' 22] \<and> trace two_and_none = []"
    by (simp add: two_and_none_def add_def add_array_def get_objects_def set_objects_def start_def
      ObjectPool_default_def)
  show ?thesis
    using acquire_data_empty_src [OF e, of 1] e d by simp
qed

end
